theory Spec2Isabelle
  imports Main "HOL-Library.Sublist"
begin

section \<open>The summary stream consumer of ChatSidebar.tsx\<close>

text \<open>
  The function \<open>generateSummary\<close> of \<open>src/components/ChatSidebar.tsx\<close> posts a request
  to \<open>/messages/summarize\<close> and reads the reply as a stream of server-sent events. This
  section embeds the part that reads the stream: the \<open>while (true)\<close> loop over
  \<open>reader.read()\<close>, the split of the buffer into lines, and the body of the
  \<open>for (const line of lines)\<close> loop.

  A JavaScript string is modelled as a \<open>string\<close> whose characters are the code units
  0 to 255. The React state variables the loop writes (\<open>summary\<close>, \<open>reasoning\<close>,
  \<open>streamingPhase\<close>, \<open>summaryError\<close>) are fields of the state record, next to the
  loop's local variables (\<open>buffer\<close>, \<open>reasoningContent\<close>, \<open>finalContent\<close>).
\<close>

subsection \<open>String operations of the runtime\<close>

text \<open>The white space that \<open>String.prototype.trim\<close> removes and that \<open>\s\<close> matches,
  among the code units 0 to 255: tab, line feed, vertical tab, form feed, carriage return,
  space and no-break space.\<close>

definition js_whitespace :: "char \<Rightarrow> bool" where
  "js_whitespace c =
     (c \<in> set [CHR 0x09, CHR 0x0A, CHR 0x0B, CHR 0x0C, CHR 0x0D, CHR 0x20, CHR 0xA0])"

definition js_trim :: "string \<Rightarrow> string" where
  "js_trim s = rev (dropWhile js_whitespace (rev (dropWhile js_whitespace s)))"

text \<open>\<open>s.startsWith(p)\<close>.\<close>

definition starts_with :: "string \<Rightarrow> string \<Rightarrow> bool" where
  "starts_with p s = (take (length p) s = p)"

text \<open>\<open>s.split('\n')\<close>: the pieces between line feeds; never an empty array.\<close>

fun split_nl :: "string \<Rightarrow> string list" where
  "split_nl [] = [[]]"
| "split_nl (c # cs) =
     (if c = CHR 0x0A then [] # split_nl cs
      else (case split_nl cs of [] \<Rightarrow> [[c]] | l # ls \<Rightarrow> (c # l) # ls))"

text \<open>\<open>/<\|/.test(s)\<close>: the text holds the two characters \<open><|\<close> that open a harmony
  control token.\<close>

fun has_harmony_token :: "string \<Rightarrow> bool" where
  "has_harmony_token (a # b # cs) =
     ((a = CHR ''<'' \<and> b = CHR ''|'') \<or> has_harmony_token (b # cs))"
| "has_harmony_token _ = False"

subsection \<open>Events and the consumer's state\<close>

text \<open>
  The value \<open>JSON.parse(data)\<close> returns, as far as the loop reads it: the fields
  \<open>error\<close>, \<open>type\<close> and \<open>content\<close>, each a string as in the event records of the
  summarize endpoint, the empty string standing for a field that is absent (both are
  falsy, and neither equals a non-empty literal). The field \<open>details\<close> only words the
  exception that the loop's own \<open>catch\<close> swallows, so it is left out.
\<close>

record sse_event =
  ev_error :: string
  ev_type :: string
  ev_content :: string

datatype phase = PhaseIdle | PhaseReasoning | PhaseOutput

record summary_state =
  buffer :: string
  reasoningContent :: string
  finalContent :: string
  summary :: string
  reasoning :: string
  streamingPhase :: phase
  summaryError :: "string option"

text \<open>The state when the request is sent: \<open>setSummary('')\<close>, \<open>setReasoning('')\<close>,
  \<open>setSummaryError(null)\<close>, \<open>setStreamingPhase('idle')\<close>, and the three locals empty.\<close>

definition initial_state :: summary_state where
  "initial_state =
     \<lparr>buffer = [], reasoningContent = [], finalContent = [], summary = [],
      reasoning = [], streamingPhase = PhaseIdle, summaryError = None\<rparr>"

subsection \<open>One event\<close>

text \<open>The chain of \<open>if\<close>/\<open>else if\<close> on \<open>parsed.type\<close>, after the check of
  \<open>parsed.error\<close>.\<close>

definition handle_event :: "summary_state \<Rightarrow> sse_event \<Rightarrow> summary_state" where
  "handle_event st parsed =
     (if ev_type parsed = ''channel_switch'' then
        (if ev_content parsed = ''analysis'' then
           st\<lparr>streamingPhase := PhaseReasoning, reasoningContent := [], reasoning := []\<rparr>
         else if ev_content parsed = ''final'' then
           st\<lparr>streamingPhase := PhaseOutput, reasoning := [], finalContent := [],
              summary := []\<rparr>
         else st)
      else if ev_type parsed = ''reasoning'' \<and> ev_content parsed \<noteq> [] then
        st\<lparr>reasoningContent := reasoningContent st @ ev_content parsed,
           reasoning := reasoningContent st @ ev_content parsed\<rparr>
      else if ev_type parsed = ''final'' \<and> ev_content parsed \<noteq> [] then
        st\<lparr>finalContent := finalContent st @ ev_content parsed,
           summary := finalContent st @ ev_content parsed\<rparr>
      else if ev_type parsed = ''chunk'' \<and> ev_content parsed \<noteq> [] then
        (if has_harmony_token (ev_content parsed) \<or> has_harmony_token (finalContent st)
         then st
         else st\<lparr>finalContent := finalContent st @ ev_content parsed,
                 summary := finalContent st @ ev_content parsed,
                 streamingPhase := PhaseOutput\<rparr>)
      else st)"

subsection \<open>One line\<close>

text \<open>
  The body of \<open>for (const line of lines)\<close>. \<open>JSON.parse\<close> belongs to the runtime and is a
  parameter: \<open>json_parse data = None\<close> when it throws, \<open>Some parsed\<close> otherwise. A line
  that does not start with \<open>data: \<close> is passed over; \<open>[DONE]\<close> meets \<open>continue\<close>; an
  exception of \<open>JSON.parse\<close> and the \<open>Error\<close> thrown for \<open>parsed.error\<close> both end in the
  \<open>catch\<close> of the same \<open>try\<close>, which logs and goes on to the next line.
\<close>

definition process_line ::
  "(string \<Rightarrow> sse_event option) \<Rightarrow> summary_state \<Rightarrow> string \<Rightarrow> summary_state" where
  "process_line json_parse st line =
     (if starts_with ''data: '' line then
        (let data = js_trim (drop 6 line) in
         if data = ''[DONE]'' then st
         else (case json_parse data of
                 None \<Rightarrow> st
               | Some parsed \<Rightarrow>
                   if ev_error parsed \<noteq> [] then st else handle_event st parsed))
      else st)"

definition process_lines ::
  "(string \<Rightarrow> sse_event option) \<Rightarrow> summary_state \<Rightarrow> string list \<Rightarrow> summary_state" where
  "process_lines json_parse st lines = foldl (process_line json_parse) st lines"

subsection \<open>The read loop\<close>

text \<open>One round of \<open>while (true)\<close> with a decoded chunk: the chunk is appended to the
  buffer, the buffer is split at line feeds, the last piece stays in the buffer
  (\<open>lines.pop() || ''\<close>) and the pieces before it are processed.\<close>

definition process_chunk ::
  "(string \<Rightarrow> sse_event option) \<Rightarrow> summary_state \<Rightarrow> string \<Rightarrow> summary_state" where
  "process_chunk json_parse st chunk =
     (let lines = split_nl (buffer st @ chunk)
      in process_lines json_parse (st\<lparr>buffer := last lines\<rparr>) (butlast lines))"

text \<open>What \<open>reader.read()\<close> gives: a chunk, a rejection with an \<open>Error\<close> (its message),
  or the rejection of an aborted request. The end of the list is \<open>done\<close>.\<close>

datatype read_result = Chunk string | ReadFailed string | Aborted

text \<open>The \<open>finally\<close> block, on the fields of the model.\<close>

definition finally_block :: "summary_state \<Rightarrow> summary_state" where
  "finally_block st = st\<lparr>streamingPhase := PhaseIdle\<rparr>"

fun read_stream ::
  "(string \<Rightarrow> sse_event option) \<Rightarrow> summary_state \<Rightarrow> read_result list \<Rightarrow> summary_state" where
  "read_stream json_parse st [] =
     finally_block
       (if finalContent st = [] \<and> reasoningContent st = []
        then st\<lparr>summaryError := Some ''No summary content received''\<rparr> else st)"
| "read_stream json_parse st (Chunk chunk # rs) =
     read_stream json_parse (process_chunk json_parse st chunk) rs"
| "read_stream json_parse st (ReadFailed msg # rs) =
     finally_block (st\<lparr>summaryError := Some msg\<rparr>)"
| "read_stream json_parse st (Aborted # rs) = finally_block st"

subsection \<open>Classes of lines\<close>

text \<open>The event a line delivers to the chain of \<open>handle_event\<close>, if it delivers one: the
  line starts with \<open>data: \<close>, its payload is not \<open>[DONE]\<close>, \<open>JSON.parse\<close> returns, and the
  record carries no \<open>error\<close>.\<close>

definition event_of :: "(string \<Rightarrow> sse_event option) \<Rightarrow> string \<Rightarrow> sse_event option" where
  "event_of json_parse line =
     (if starts_with ''data: '' line \<and> js_trim (drop 6 line) \<noteq> ''[DONE]'' then
        (case json_parse (js_trim (drop 6 line)) of
           None \<Rightarrow> None
         | Some parsed \<Rightarrow> if ev_error parsed \<noteq> [] then None else Some parsed)
      else None)"

text \<open>The \<open>[DONE]\<close> terminator line of the stream.\<close>

definition terminator_line :: "string \<Rightarrow> bool" where
  "terminator_line line = (starts_with ''data: '' line \<and> js_trim (drop 6 line) = ''[DONE]'')"

text \<open>A data line whose payload \<open>JSON.parse\<close> rejects.\<close>

definition malformed_line :: "(string \<Rightarrow> sse_event option) \<Rightarrow> string \<Rightarrow> bool" where
  "malformed_line json_parse line =
     (starts_with ''data: '' line \<and> js_trim (drop 6 line) \<noteq> ''[DONE]'' \<and>
      json_parse (js_trim (drop 6 line)) = None)"








text \<open>A legacy chunk event whose text holds a harmony control token.\<close>

definition tagged_chunk_line :: "(string \<Rightarrow> sse_event option) \<Rightarrow> string \<Rightarrow> bool" where
  "tagged_chunk_line json_parse line =
     (case event_of json_parse line of
        None \<Rightarrow> False
      | Some e \<Rightarrow> ev_type e = ''chunk'' \<and> has_harmony_token (ev_content e))"

text \<open>\<open>JSON.parse\<close> at the payloads of the examples below; no other payload is used
  there.\<close>

definition json_parse_examples :: "string \<Rightarrow> sse_event option" where
  \<open>json_parse_examples data =
     (if data = ''{"type":"channel_switch","content":"analysis"}'' then
        Some \<lparr>ev_error = [], ev_type = ''channel_switch'', ev_content = ''analysis''\<rparr>
      else if data = ''{"type":"reasoning","content":"think"}'' then
        Some \<lparr>ev_error = [], ev_type = ''reasoning'', ev_content = ''think''\<rparr>
      else if data = ''{"type":"channel_switch","content":"final"}'' then
        Some \<lparr>ev_error = [], ev_type = ''channel_switch'', ev_content = ''final''\<rparr>
      else if data = ''{"type":"final","content":"Hello"}'' then
        Some \<lparr>ev_error = [], ev_type = ''final'', ev_content = ''Hello''\<rparr>
      else if data = ''{"type":"final","content":"late"}'' then
        Some \<lparr>ev_error = [], ev_type = ''final'', ev_content = ''late''\<rparr>
      else if data = ''{"type":"chunk","content":"plain"}'' then
        Some \<lparr>ev_error = [], ev_type = ''chunk'', ev_content = ''plain''\<rparr>
      else if data = ''{"type":"chunk","content":"<|start|>"}'' then
        Some \<lparr>ev_error = [], ev_type = ''chunk'', ev_content = ''<|start|>''\<rparr>
      else None)\<close>


section \<open>The extraction of links and media in ChatSidebar.tsx\<close>

text \<open>
  The \<open>useMemo\<close> block of the component walks over \<open>state.messages\<close> and, for each
  message, over the matches of \<open>URL_PATTERN\<close> in its content. This section embeds the
  two patterns, the body of \<open>urlMatches.forEach\<close> and the two loops around it.
\<close>

subsection \<open>The patterns\<close>

text \<open>The flag \<open>i\<close>: a letter of a pattern matches its upper-case form too. Patterns are
  written in lower case and compared with the lower-case form of the text.\<close>

definition ascii_lower :: "char \<Rightarrow> char" where
  "ascii_lower c =
     (let n = (of_char c :: nat) in if 65 \<le> n \<and> n \<le> 90 then char_of (n + 32) else c)"

definition ci_prefix :: "string \<Rightarrow> string \<Rightarrow> bool" where
  "ci_prefix pat s = (map ascii_lower (take (length pat) s) = pat)"

text \<open>\<open>URL_PATTERN = /https?:\/\/[^\s<]+[^<.,:;"')\]\s]/gi\<close>. The two character
  classes:\<close>

definition url_class1 :: "char \<Rightarrow> bool" where
  "url_class1 c = (\<not> js_whitespace c \<and> c \<noteq> CHR ''<'')"

definition url_class2 :: "char \<Rightarrow> bool" where
  "url_class2 c =
     (\<not> js_whitespace c \<and>
      c \<notin> set [CHR ''<'', CHR ''.'', CHR '','', CHR '':'', CHR '';'', CHR 0x22, CHR 0x27,
                CHR '')'', CHR '']''])"

text \<open>The length of \<open>https?:\/\/\<close> at the start of the text, if it matches there.\<close>

definition scheme_length :: "string \<Rightarrow> nat option" where
  "scheme_length s =
     (if ci_prefix ''https://'' s then Some 8
      else if ci_prefix ''http://'' s then Some 7
      else None)"

text \<open>
  The match of the pattern at the start of the text. After the scheme, the greedy
  \<open>[^\s<]+\<close> takes the longest run of the first class and gives characters back until
  the one that follows it is of the second class; every character of the second class is
  of the first, so the match is the scheme and the run up to its last character of the
  second class, and it needs two characters after the scheme.
\<close>

definition url_match_at :: "string \<Rightarrow> string option" where
  "url_match_at s =
     (case scheme_length s of
        None \<Rightarrow> None
      | Some n \<Rightarrow>
          (let run = takeWhile url_class1 (drop n s);
               body = rev (dropWhile (\<lambda>c. \<not> url_class2 c) (rev run))
           in if 2 \<le> length body then Some (take n s @ body) else None))"

text \<open>\<open>content.match(URL_PATTERN) || []\<close>: the matches from left to right, the search
  going on behind each match. The counter is the number of characters of the last match
  still to pass.\<close>

fun scan_urls :: "nat \<Rightarrow> string \<Rightarrow> string list" where
  "scan_urls skip [] = []"
| "scan_urls skip (c # cs) =
     (if 0 < skip then scan_urls (skip - 1) cs
      else (case url_match_at (c # cs) of
              None \<Rightarrow> scan_urls 0 cs
            | Some m \<Rightarrow> m # scan_urls (length m - 1) cs))"

definition url_matches :: "string \<Rightarrow> string list" where
  "url_matches content = scan_urls 0 content"

text \<open>\<open>IMAGE_PATTERN = /\.(jpg|jpeg|png|gif|webp|svg|bmp|ico)(\?|$)/i\<close>, tested anywhere in
  the text.\<close>

definition image_extensions :: "string list" where
  "image_extensions = [''jpg'', ''jpeg'', ''png'', ''gif'', ''webp'', ''svg'', ''bmp'', ''ico'']"

definition extension_here :: "string \<Rightarrow> bool" where
  "extension_here s =
     list_ex (\<lambda>e. ci_prefix e s \<and>
                  (case drop (length e) s of [] \<Rightarrow> True | c # _ \<Rightarrow> c = CHR ''?''))
        image_extensions"

fun image_pattern :: "string \<Rightarrow> bool" where
  "image_pattern [] = False"
| "image_pattern (c # cs) = ((c = CHR ''.'' \<and> extension_here cs) \<or> image_pattern cs)"

text \<open>\<open>hostname.replace('www.', '')\<close>: a string pattern replaces its first occurrence,
  wherever it stands.\<close>

fun replace_www :: "string \<Rightarrow> string" where
  "replace_www [] = []"
| "replace_www (c # cs) =
     (if take 4 (c # cs) = ''www.'' then drop 4 (c # cs) else c # replace_www cs)"

subsection \<open>Messages and what is extracted from them\<close>

record chat_message =
  msg_content :: string
  msg_timestamp :: int
  msg_senderId :: string

record extracted_link =
  link_url :: string
  link_domain :: string
  link_timestamp :: int
  link_senderId :: string

record extracted_media =
  media_url :: string
  media_timestamp :: int
  media_senderId :: string

text \<open>
  The body of \<open>urlMatches.forEach\<close>, on the pair of the arrays \<open>lnks\<close> and \<open>imgs\<close>. The
  constructor \<open>new URL(url)\<close> belongs to the runtime and is a parameter:
  \<open>hostname_of url = None\<close> when it throws (the \<open>catch\<close> ignores the URL), and
  \<open>Some\<close> of \<open>urlObj.hostname\<close> otherwise.
\<close>

definition extract_url ::
  "(string \<Rightarrow> string option) \<Rightarrow> chat_message \<Rightarrow>
   extracted_link list \<times> extracted_media list \<Rightarrow> string \<Rightarrow>
   extracted_link list \<times> extracted_media list" where
  "extract_url hostname_of msg acc url =
     (case hostname_of url of
        None \<Rightarrow> acc
      | Some hostname \<Rightarrow>
          if image_pattern url then
            (fst acc,
             snd acc @ [\<lparr>media_url = url, media_timestamp = msg_timestamp msg,
                         media_senderId = msg_senderId msg\<rparr>])
          else
            (fst acc @ [\<lparr>link_url = url, link_domain = replace_www hostname,
                         link_timestamp = msg_timestamp msg,
                         link_senderId = msg_senderId msg\<rparr>],
             snd acc))"

definition extract_message ::
  "(string \<Rightarrow> string option) \<Rightarrow> extracted_link list \<times> extracted_media list \<Rightarrow>
   chat_message \<Rightarrow> extracted_link list \<times> extracted_media list" where
  "extract_message hostname_of acc msg =
     foldl (extract_url hostname_of msg) acc (url_matches (msg_content msg))"

text \<open>The loop over the messages, and the two results: each array sorted by
  \<open>b.timestamp - a.timestamp\<close>, the newest first, equal timestamps in the order of
  extraction.\<close>

definition extract_messages ::
  "(string \<Rightarrow> string option) \<Rightarrow> chat_message list \<Rightarrow>
   extracted_link list \<times> extracted_media list" where
  "extract_messages hostname_of messages = foldl (extract_message hostname_of) ([], []) messages"

definition links :: "(string \<Rightarrow> string option) \<Rightarrow> chat_message list \<Rightarrow> extracted_link list" where
  "links hostname_of messages =
     sort_key (\<lambda>l. - link_timestamp l) (fst (extract_messages hostname_of messages))"

definition media :: "(string \<Rightarrow> string option) \<Rightarrow> chat_message list \<Rightarrow> extracted_media list" where
  "media hostname_of messages =
     sort_key (\<lambda>m. - media_timestamp m) (snd (extract_messages hostname_of messages))"

text \<open>\<open>new URL(url).hostname\<close> at the URLs of the examples below; no other URL is used
  there.\<close>

definition hostname_examples :: "string \<Rightarrow> string option" where
  "hostname_examples url =
     (if url = ''https://mywww.example.com/page'' then Some ''mywww.example.com''
      else if url = ''https://www.example.com/docs'' then Some ''www.example.com''
      else if url = ''https://cdn.example.com/cat.PNG?size=2'' then Some ''cdn.example.com''
      else None)"

section \<open>The Agent Runtime, from the specification\<close>

text \<open>
  The agent service that the specification describes (the Python programs under
  \<open>agents/\<close>) is not among the source files. The definitions of this section follow the
  words of sections 3 and 4.5 of the specification; each says so.
\<close>

subsection \<open>The tool loop\<close>

text \<open>Modelled from the spec: the outcome of one trigger's reply cycle, which the
  missing Agent Runtime would produce. \<open>reply\<close> is the text posted (\<open>None\<close> when the
  trigger is abandoned without a reply), \<open>rounds\<close> the value of the round counter at each
  entry of the state \<open>Inferring\<close>, \<open>visibles\<close> the visible text the Codec returned at each
  of them, and \<open>inference_calls\<close> the number of calls of the inference endpoint.\<close>

record loop_outcome =
  reply :: "string option"
  rounds :: "nat list"
  visibles :: "string list"
  inference_calls :: nat

text \<open>Modelled from the spec: the fallback of section 4.5 (a fallback "unable to
  complete" message), whose wording in the missing runtime is not given.\<close>

definition fallback_reply :: string where
  "fallback_reply = ''unable to complete''"

text \<open>Modelled from the spec: the state \<open>Inferring\<close> of the missing runtime (section
  4.5): the Inference Client is called; on a failure it is called once more; on a
  repeated failure there is no output. The endpoint is a parameter that answers the
  \<open>n\<close>-th call of the trigger for a context (\<open>None\<close> is a failure); the second component
  is the number of calls made so far.\<close>

definition inferring ::
  "(nat \<Rightarrow> 'ctx \<Rightarrow> string option) \<Rightarrow> nat \<Rightarrow> 'ctx \<Rightarrow> string option \<times> nat" where
  "inferring infer n ctx =
     (case infer n ctx of
        Some raw \<Rightarrow> (Some raw, n + 1)
      | None \<Rightarrow> (infer (n + 1) ctx, n + 2))"

text \<open>Modelled from the spec: the loop \<open>Inferring\<close>, \<open>ExecutingTools\<close>, \<open>Replying\<close> of the
  missing runtime (section 4.5). The Codec (\<open>parse\<close>, giving the visible text and the tool
  calls) and the Tool Executor (\<open>exec\<close>, giving the context with the results appended) are
  parameters. With no tool call the visible text is the reply; with tool calls and the
  round counter below the maximum the calls are run and the loop goes back to
  \<open>Inferring\<close> with the counter incremented; with the counter at the maximum the last
  visible text, if any, is the reply, else the fallback.\<close>

function tool_loop ::
  "(nat \<Rightarrow> 'ctx \<Rightarrow> string option) \<Rightarrow> (string \<Rightarrow> string \<times> 'call list) \<Rightarrow>
   ('ctx \<Rightarrow> 'call list \<Rightarrow> 'ctx) \<Rightarrow> nat \<Rightarrow> nat \<Rightarrow> nat \<Rightarrow> string \<Rightarrow> 'ctx \<Rightarrow> loop_outcome" where
  "tool_loop infer parse exec max_rounds round n last_visible ctx =
     (case inferring infer n ctx of
        (None, n') \<Rightarrow>
          \<lparr>reply = None, rounds = [round], visibles = [], inference_calls = n'\<rparr>
      | (Some raw, n') \<Rightarrow>
          (let visible = fst (parse raw);
               calls = snd (parse raw);
               last_visible' = (if visible \<noteq> [] then visible else last_visible)
           in if calls = [] then
                \<lparr>reply = Some visible, rounds = [round], visibles = [visible],
                 inference_calls = n'\<rparr>
              else if round < max_rounds then
                (let out = tool_loop infer parse exec max_rounds (round + 1) n' last_visible'
                             (exec ctx calls)
                 in out\<lparr>rounds := round # rounds out, visibles := visible # visibles out\<rparr>)
              else
                \<lparr>reply = Some (if last_visible' \<noteq> [] then last_visible' else fallback_reply),
                 rounds = [round], visibles = [visible], inference_calls = n'\<rparr>))"
  by pat_completeness auto
termination
  by (relation "measure (\<lambda>(infer, parse, exec, max_rounds, round, n, last_visible, ctx).
        max_rounds - round)") auto

text \<open>Modelled from the spec: one trigger of the missing runtime: the round counter
  starts at zero, no call of the endpoint has been made, and no visible text has been
  seen.\<close>

definition run_trigger ::
  "(nat \<Rightarrow> 'ctx \<Rightarrow> string option) \<Rightarrow> (string \<Rightarrow> string \<times> 'call list) \<Rightarrow>
   ('ctx \<Rightarrow> 'call list \<Rightarrow> 'ctx) \<Rightarrow> nat \<Rightarrow> 'ctx \<Rightarrow> loop_outcome" where
  "run_trigger infer parse exec max_rounds ctx =
     tool_loop infer parse exec max_rounds 0 0 [] ctx"

text \<open>Modelled from the spec: the last visible text (section 4.5) among the visible
  texts of the rounds: the last one that is not empty, and \<open>seen\<close> when all are empty.\<close>

definition last_visible_text :: "string \<Rightarrow> string list \<Rightarrow> string" where
  "last_visible_text seen vs = foldl (\<lambda>acc v. if v \<noteq> [] then v else acc) seen vs"

text \<open>Modelled from the spec: the reply that section 4.5 names for a trigger that ends
  at the round maximum: the last visible text of its rounds, if any, else the
  fallback.\<close>

definition last_visible_or_fallback :: "string list \<Rightarrow> string" where
  "last_visible_or_fallback vs =
     (if last_visible_text [] vs \<noteq> [] then last_visible_text [] vs else fallback_reply)"

subsection \<open>Triggers and the cooldown\<close>

text \<open>Modelled from the spec: the fields of AgentConfig (section 3) that the trigger
  evaluation of the missing runtime reads: the agent's identity, the capability
  \<open>respondsProactively\<close> and the proactive cooldown duration.\<close>

record agent_config =
  agent_id :: string
  respondsProactively :: bool
  proactiveCooldown :: nat

text \<open>Modelled from the spec: the fields of Message (section 3) that the trigger
  evaluation reads: id, author, body and mention list.\<close>

record feed_message =
  fm_id :: string
  fm_author :: string
  fm_body :: string
  fm_mentions :: "string list"

text \<open>Modelled from the spec: the part of AgentRuntimeState (section 3) that the
  cooldown reads and writes: the last proactive-response timestamp.\<close>

record runtime_state =
  last_proactive :: "nat option"

text \<open>Modelled from the spec: the triggers of the glossary: an addressed mention, a
  proactive opportunity, a scheduled summarization.\<close>

datatype trigger = Addressed | Proactive | Summarization

text \<open>Modelled from the spec: one evaluation of the state \<open>Idle/Polling\<close>: the clock,
  whether a periodic summarization is due, and the message evaluated.\<close>

record poll_event =
  pe_now :: nat
  pe_summary_due :: bool
  pe_message :: feed_message

text \<open>Modelled from the spec: a reply posted to the feed, with the time of the post and
  the trigger that caused it.\<close>

record posted_reply =
  pr_time :: nat
  pr_trigger :: trigger
  pr_reply_to :: string
  pr_text :: string

text \<open>Modelled from the spec: the cooldown of the glossary (the minimum elapsed time
  between two proactive replies): it has elapsed at \<open>now\<close> when no proactive reply was
  posted yet or the last one is at least the cooldown duration old.\<close>

definition cooldown_elapsed :: "agent_config \<Rightarrow> runtime_state \<Rightarrow> nat \<Rightarrow> bool" where
  "cooldown_elapsed cfg st now =
     (case last_proactive st of None \<Rightarrow> True | Some t \<Rightarrow> t + proactiveCooldown cfg \<le> now)"

text \<open>Modelled from the spec: the evaluation of section 4.5 in the missing runtime: is
  the agent addressed directly (mention match), or is proactive participation enabled
  and the cooldown elapsed, or is a periodic summarization due; the first condition that
  holds wins, the addressed trigger before the proactive one.\<close>

definition evaluate_trigger :: "agent_config \<Rightarrow> runtime_state \<Rightarrow> poll_event \<Rightarrow> trigger option" where
  "evaluate_trigger cfg st ev =
     (if agent_id cfg \<in> set (fm_mentions (pe_message ev)) then Some Addressed
      else if respondsProactively cfg \<and> cooldown_elapsed cfg st (pe_now ev) then Some Proactive
      else if pe_summary_due ev then Some Summarization
      else None)"

text \<open>Modelled from the spec: one trigger cycle of the missing runtime. The states from
  \<open>BuildingContext\<close> to \<open>ExecutingTools\<close> are the parameter \<open>respond\<close>, which gives the
  final text or \<open>None\<close> when the cycle is abandoned (no reply). The reply is posted, and
  after a proactive trigger the state \<open>CoolingDown\<close> records the timestamp.\<close>

definition trigger_cycle ::
  "agent_config \<Rightarrow> (trigger \<Rightarrow> feed_message \<Rightarrow> string option) \<Rightarrow> runtime_state \<Rightarrow>
   poll_event \<Rightarrow> runtime_state \<times> posted_reply list" where
  "trigger_cycle cfg respond st ev =
     (case evaluate_trigger cfg st ev of
        None \<Rightarrow> (st, [])
      | Some k \<Rightarrow>
          (case respond k (pe_message ev) of
             None \<Rightarrow> (st, [])
           | Some answer \<Rightarrow>
               (if k = Proactive then st\<lparr>last_proactive := Some (pe_now ev)\<rparr> else st,
                [\<lparr>pr_time = pe_now ev, pr_trigger = k,
                  pr_reply_to = fm_id (pe_message ev), pr_text = answer\<rparr>])))"

text \<open>Modelled from the spec: the missing runtime over a sequence of evaluations, one
  trigger cycle after the other (section 5: no two cycles of one agent overlap); the
  result is the replies posted, in order.\<close>

fun run_runtime ::
  "agent_config \<Rightarrow> (trigger \<Rightarrow> feed_message \<Rightarrow> string option) \<Rightarrow> runtime_state \<Rightarrow>
   poll_event list \<Rightarrow> posted_reply list" where
  "run_runtime cfg respond st [] = []"
| "run_runtime cfg respond st (ev # evs) =
     (let r = trigger_cycle cfg respond st ev
      in snd r @ run_runtime cfg respond (fst r) evs)"

text \<open>Modelled from the spec: the times of the proactive replies among the posts.\<close>

definition proactive_times :: "posted_reply list \<Rightarrow> nat list" where
  "proactive_times posts = map pr_time (filter (\<lambda>p. pr_trigger p = Proactive) posts)"

section \<open>Properties of the summary stream consumer\<close>

subsection \<open>Lines, events and the invariant of the displayed summary\<close>

lemmas line_class_defs =
  event_of_def starts_with_def js_trim_def js_whitespace_def json_parse_examples_def

lemma process_line_event_of:
  "process_line p st l = (case event_of p l of None \<Rightarrow> st | Some e \<Rightarrow> handle_event st e)"
  by (simp add: process_line_def event_of_def Let_def split: option.splits)

lemma handle_event_inv:
  "summary st = finalContent st \<Longrightarrow> summary (handle_event st e) = finalContent (handle_event st e)"
  by (simp add: handle_event_def)

lemma process_line_inv:
  "summary st = finalContent st \<Longrightarrow>
   summary (process_line p st l) = finalContent (process_line p st l)"
  by (simp add: process_line_event_of handle_event_inv split: option.splits)

lemma process_lines_inv:
  "summary st = finalContent st \<Longrightarrow>
   summary (process_lines p st ls) = finalContent (process_lines p st ls)"
  unfolding process_lines_def
  by (induction ls arbitrary: st) (simp_all add: process_line_inv)

lemma process_lines_Cons:
  "process_lines p st (l # ls) = process_lines p (process_line p st l) ls"
  by (simp add: process_lines_def)

lemma process_lines_Nil: "process_lines p st [] = st"
  by (simp add: process_lines_def)

lemma process_lines_append:
  "process_lines p st (xs @ ys) = process_lines p (process_lines p st xs) ys"
  by (simp add: process_lines_def)

























subsection \<open>Chunks and lines\<close>

text \<open>The read loop processes the complete lines of the whole text received, however
  the text is cut into chunks; what follows the last line feed is never processed.\<close>

lemma split_nl_not_Nil: "split_nl s \<noteq> []"
  by (induction s) (auto split: list.splits)

lemma split_nl_no_line_feed: "CHR 0x0A \<notin> set s \<Longrightarrow> split_nl s = [s]"
  by (induction s) auto

lemma last_split_nl_no_line_feed: "CHR 0x0A \<notin> set (last (split_nl s))"
proof (induction s)
  case Nil
  show ?case by simp
next
  case (Cons c s)
  obtain l ls where s: "split_nl s = l # ls"
    using split_nl_not_Nil [of s] by (cases "split_nl s") auto
  with Cons show ?case
    by (cases ls) auto
qed

lemma split_nl_append:
  "split_nl (a @ b) = butlast (split_nl a) @ split_nl (last (split_nl a) @ b)"
proof (induction a)
  case Nil
  show ?case by simp
next
  case (Cons c a)
  obtain l ls where a: "split_nl a = l # ls"
    using split_nl_not_Nil [of a] by (cases "split_nl a") auto
  show ?case
  proof (cases "c = CHR 0x0A")
    case True
    with Cons a show ?thesis by simp
  next
    case False
    show ?thesis
    proof (cases ls)
      case Nil
      with Cons a False show ?thesis by simp
    next
      case (Cons m ms)
      with Cons.IH a False show ?thesis by simp
    qed
  qed
qed

lemma handle_event_buffer_update:
  "handle_event (st\<lparr>buffer := b\<rparr>) e = (handle_event st e)\<lparr>buffer := b\<rparr>"
  by (simp add: handle_event_def)

lemma process_line_buffer_update:
  "process_line p (st\<lparr>buffer := b\<rparr>) l = (process_line p st l)\<lparr>buffer := b\<rparr>"
  by (simp add: process_line_event_of handle_event_buffer_update split: option.splits)

lemma process_lines_buffer_update:
  "process_lines p (st\<lparr>buffer := b\<rparr>) ls = (process_lines p st ls)\<lparr>buffer := b\<rparr>"
  by (induction ls arbitrary: st)
     (simp_all add: process_lines_Nil process_lines_Cons process_line_buffer_update)

lemma process_chunk_lines:
  "process_chunk p st chunk =
     (process_lines p st (butlast (split_nl (buffer st @ chunk))))
       \<lparr>buffer := last (split_nl (buffer st @ chunk))\<rparr>"
  by (simp add: process_chunk_def Let_def process_lines_buffer_update)

lemma process_chunks_lines:
  "CHR 0x0A \<notin> set (buffer st) \<Longrightarrow>
   foldl (process_chunk p) st chunks =
     (process_lines p st (butlast (split_nl (buffer st @ concat chunks))))
       \<lparr>buffer := last (split_nl (buffer st @ concat chunks))\<rparr>"
proof (induction chunks arbitrary: st)
  case Nil
  then show ?case
    by (simp add: split_nl_no_line_feed process_lines_Nil)
next
  case (Cons c cs)
  define ls where "ls = split_nl (buffer st @ c)"
  define st' where "st' = process_chunk p st c"
  have b: "buffer st' = last ls"
    by (simp add: st'_def ls_def process_chunk_lines)
  then have nl: "CHR 0x0A \<notin> set (buffer st')"
    by (simp add: ls_def last_split_nl_no_line_feed)
  have split: "split_nl (buffer st @ c @ concat cs) =
      butlast ls @ split_nl (last ls @ concat cs)"
    using split_nl_append [of "buffer st @ c" "concat cs"] by (simp add: ls_def)
  have ne: "split_nl (last ls @ concat cs) \<noteq> []"
    by (rule split_nl_not_Nil)
  have "foldl (process_chunk p) st (c # cs) = foldl (process_chunk p) st' cs"
    by (simp add: st'_def)
  also have "\<dots> = (process_lines p st' (butlast (split_nl (last ls @ concat cs))))
       \<lparr>buffer := last (split_nl (last ls @ concat cs))\<rparr>"
    using Cons.IH [OF nl] b by simp
  also have "\<dots> = (process_lines p st (butlast ls @ butlast (split_nl (last ls @ concat cs))))
       \<lparr>buffer := last (split_nl (last ls @ concat cs))\<rparr>"
    by (simp add: st'_def process_chunk_lines ls_def process_lines_append
          process_lines_buffer_update)
  finally show ?case
    using ne by (simp add: split butlast_append)
qed

lemma read_stream_chunks:
  "read_stream p st (map Chunk chunks) = read_stream p (foldl (process_chunk p) st chunks) []"
  by (induction chunks arbitrary: st) simp_all

lemma read_stream_summary:
  "summary (read_stream p initial_state (map Chunk chunks)) =
   summary (process_lines p initial_state (butlast (split_nl (concat chunks))))"
proof -
  have "CHR 0x0A \<notin> set (buffer initial_state)"
    by (simp add: initial_state_def)
  from process_chunks_lines [OF this, of p chunks] show ?thesis
    by (simp add: read_stream_chunks finally_block_def initial_state_def)
qed

subsection \<open>The analysis channel and the summary\<close>




subsection \<open>Terminator lines and malformed payloads\<close>

lemma skipped_line:
  "terminator_line l \<or> malformed_line json_parse l \<Longrightarrow> process_line json_parse st l = st"
  by (auto simp add: terminator_line_def malformed_line_def process_line_def Let_def)

text \<open>
  Claim C2, as amended. A \<open>[DONE]\<close> terminator line and a data line whose payload
  \<open>JSON.parse\<close> rejects are each passed over: the state of the consumer, its error
  field included, is left as it is, and the lines that follow are still processed, so the
  stream with such a line is read as the stream without it. The stream ends only when
  the reader reports \<open>done\<close>.
\<close>

theorem C2_terminator_and_malformed_skipped:
  "terminator_line l \<or> malformed_line json_parse l \<Longrightarrow>
   process_line json_parse st l = st \<and>
   summaryError (process_line json_parse st l) = summaryError st \<and>
   process_lines json_parse st (pre @ l # post) = process_lines json_parse st (pre @ post)"
proof -
  assume h: "terminator_line l \<or> malformed_line json_parse l"
  then have "process_line json_parse s l = s" for s
    by (rule skipped_line)
  then show ?thesis
    by (simp add: process_lines_append process_lines_Cons)
qed

theorem C2_witness:
  \<open>process_lines json_parse_examples initial_state
     ([''data: {"type":"final","content":"Hello"}''] @ ''data: [DONE] '' #
      [''data: {"type":"final","content":"late"}'']) =
   process_lines json_parse_examples initial_state
     ([''data: {"type":"final","content":"Hello"}''] @
      [''data: {"type":"final","content":"late"}'']) \<and>
   process_lines json_parse_examples initial_state
     ([''data: {"type":"final","content":"Hello"}''] @ ''data: {"type":"final","content":'' #
      [''data: {"type":"final","content":"late"}'']) =
   process_lines json_parse_examples initial_state
     ([''data: {"type":"final","content":"Hello"}''] @
      [''data: {"type":"final","content":"late"}''])\<close>
proof -
  have t: "terminator_line ''data: [DONE] '' \<or> malformed_line json_parse_examples ''data: [DONE] ''"
    by (simp add: terminator_line_def line_class_defs)
  have m: \<open>terminator_line ''data: {"type":"final","content":'' \<or>
      malformed_line json_parse_examples ''data: {"type":"final","content":''\<close>
    by (simp add: malformed_line_def line_class_defs)
  from C2_terminator_and_malformed_skipped [OF t] C2_terminator_and_malformed_skipped [OF m]
  show ?thesis by blast
qed

text \<open>
  The claim as the specification states it fails: an event that follows the terminator,
  or a malformed payload, in the stream is still consumed and reaches the summary, where
  a consumer that stopped there would show nothing.
\<close>

theorem C2_counterexample:
  \<open>summary (read_stream json_parse_examples initial_state
      [Chunk ''data: [DONE]\<newline>data: {"type":"final","content":"late"}\<newline>'']) = ''late'' \<and>
   summary (read_stream json_parse_examples initial_state
      [Chunk ''data: [DONE]\<newline>'']) = [] \<and>
   summary (read_stream json_parse_examples initial_state
      [Chunk ''data: {"type":"final","content":\<newline>data: {"type":"final","content":"late"}\<newline>'']) = ''late'' \<and>
   summary (read_stream json_parse_examples initial_state
      [Chunk ''data: {"type":"final","content":\<newline>'']) = []\<close>
  by (simp add: process_chunk_def process_lines_def process_line_def initial_state_def
        json_parse_examples_def starts_with_def js_trim_def js_whitespace_def
        handle_event_def finally_block_def Let_def)

subsection \<open>Legacy chunks and harmony tokens\<close>

lemma handle_chunk:
  "ev_type e = ''chunk'' \<Longrightarrow>
   handle_event st e =
     (if ev_content e = [] \<or> has_harmony_token (ev_content e) \<or>
         has_harmony_token (finalContent st)
      then st
      else st\<lparr>finalContent := finalContent st @ ev_content e,
              summary := finalContent st @ ev_content e,
              streamingPhase := PhaseOutput\<rparr>)"
  by (simp add: handle_event_def)

lemma tagged_chunk_skipped:
  "tagged_chunk_line json_parse l \<Longrightarrow> process_line json_parse st l = st"
proof (cases "event_of json_parse l")
  case None
  then show ?thesis by (simp add: process_line_event_of)
next
  case (Some e)
  assume "tagged_chunk_line json_parse l"
  with Some have "ev_type e = ''chunk''" and "has_harmony_token (ev_content e)"
    by (simp_all add: tagged_chunk_line_def)
  with Some show ?thesis
    by (simp add: process_line_event_of handle_chunk)
qed

lemma drop_tagged_chunks:
  "process_lines json_parse st (filter (\<lambda>l. \<not> tagged_chunk_line json_parse l) lines) =
   process_lines json_parse st lines"
  by (induction lines arbitrary: st)
     (simp_all add: process_lines_Nil process_lines_Cons tagged_chunk_skipped)

text \<open>
  Claim C9. At every step of the processing (the state reached from the initial state
  by any lines), a line that delivers a legacy chunk event is appended to the displayed
  summary exactly when neither its content nor the summary so far holds \<open><|\<close>;
  otherwise the line changes nothing at all. Hence the summary of a stream is the
  summary of the stream without its chunk events that hold \<open><|\<close>.
\<close>

theorem C9_chunk_with_token_held_back:
  "event_of json_parse l = Some e \<and> ev_type e = ''chunk'' \<and>
   st = process_lines json_parse initial_state pre \<longrightarrow>
     (has_harmony_token (ev_content e) \<or> has_harmony_token (summary st) \<longrightarrow>
        process_line json_parse st l = st) \<and>
     (\<not> has_harmony_token (ev_content e) \<and> \<not> has_harmony_token (summary st) \<longrightarrow>
        summary (process_line json_parse st l) = summary st @ ev_content e) \<and>
     summary (process_lines json_parse initial_state
                (filter (\<lambda>l. \<not> tagged_chunk_line json_parse l) lines)) =
       summary (process_lines json_parse initial_state lines)"
proof (intro impI)
  assume h: "event_of json_parse l = Some e \<and> ev_type e = ''chunk'' \<and>
    st = process_lines json_parse initial_state pre"
  have "summary initial_state = finalContent initial_state"
    by (simp add: initial_state_def)
  then have inv: "summary st = finalContent st"
    using h by (simp add: process_lines_inv)
  have step: "process_line json_parse st l = handle_event st e"
    using h by (simp add: process_line_event_of)
  have c: "ev_type e = ''chunk''" using h by simp
  show "(has_harmony_token (ev_content e) \<or> has_harmony_token (summary st) \<longrightarrow>
        process_line json_parse st l = st) \<and>
     (\<not> has_harmony_token (ev_content e) \<and> \<not> has_harmony_token (summary st) \<longrightarrow>
        summary (process_line json_parse st l) = summary st @ ev_content e) \<and>
     summary (process_lines json_parse initial_state
                (filter (\<lambda>l. \<not> tagged_chunk_line json_parse l) lines)) =
       summary (process_lines json_parse initial_state lines)"
    using inv by (simp add: step handle_chunk [OF c] drop_tagged_chunks)
qed

theorem C9_witness:
  \<open>process_line json_parse_examples
      (process_lines json_parse_examples initial_state
         [''data: {"type":"chunk","content":"plain"}''])
      ''data: {"type":"chunk","content":"<|start|>"}'' =
    process_lines json_parse_examples initial_state
         [''data: {"type":"chunk","content":"plain"}''] \<and>
   summary (process_line json_parse_examples
      (process_lines json_parse_examples initial_state
         [''data: {"type":"chunk","content":"plain"}''])
      ''data: {"type":"chunk","content":"plain"}'') = ''plainplain''\<close>
proof -
  let ?st = \<open>process_lines json_parse_examples initial_state
         [''data: {"type":"chunk","content":"plain"}'']\<close>
  let ?tagged = \<open>\<lparr>ev_error = [], ev_type = ''chunk'', ev_content = ''<|start|>''\<rparr>\<close>
  let ?plain = \<open>\<lparr>ev_error = [], ev_type = ''chunk'', ev_content = ''plain''\<rparr>\<close>
  have s: "summary ?st = ''plain''"
    by (simp add: process_lines_def process_line_def initial_state_def
        json_parse_examples_def starts_with_def js_trim_def js_whitespace_def
        handle_event_def Let_def)
  have e1: \<open>event_of json_parse_examples ''data: {"type":"chunk","content":"<|start|>"}'' =
      Some ?tagged\<close>
    by (simp add: line_class_defs)
  have e2: \<open>event_of json_parse_examples ''data: {"type":"chunk","content":"plain"}'' =
      Some ?plain\<close>
    by (simp add: line_class_defs)
  from C9_chunk_with_token_held_back
    [of json_parse_examples \<open>''data: {"type":"chunk","content":"<|start|>"}''\<close> ?tagged ?st
      \<open>[''data: {"type":"chunk","content":"plain"}'']\<close> "[]"] e1
  have a: \<open>process_line json_parse_examples ?st
      ''data: {"type":"chunk","content":"<|start|>"}'' = ?st\<close>
    by simp
  from C9_chunk_with_token_held_back
    [of json_parse_examples \<open>''data: {"type":"chunk","content":"plain"}''\<close> ?plain ?st
      \<open>[''data: {"type":"chunk","content":"plain"}'']\<close> "[]"] e2 s
  have b: \<open>summary (process_line json_parse_examples ?st
      ''data: {"type":"chunk","content":"plain"}'') = ''plainplain''\<close>
    by simp
  from a b show ?thesis by simp
qed

section \<open>Properties of the extraction of links and media\<close>

lemmas extraction_defs =
  extract_messages_def extract_message_def url_matches_def url_match_at_def
  scheme_length_def ci_prefix_def ascii_lower_def url_class1_def url_class2_def
  js_whitespace_def extract_url_def hostname_examples_def extension_here_def
  image_extensions_def Let_def char_of_def bit_0

text \<open>A message with a link in parentheses, an image and a text that \<open>new URL\<close>
  rejects: the link loses its leading \<open>www.\<close>, the image goes to the media, the third
  match goes nowhere.\<close>

lemma extraction_example:
  "map link_domain (links hostname_examples
     [\<lparr>msg_content = ''docs (https://www.example.com/docs), https://cdn.example.com/cat.PNG?size=2 http://[zz'',
       msg_timestamp = 7, msg_senderId = ''u2''\<rparr>]) = [''example.com''] \<and>
   map media_url (media hostname_examples
     [\<lparr>msg_content = ''docs (https://www.example.com/docs), https://cdn.example.com/cat.PNG?size=2 http://[zz'',
       msg_timestamp = 7, msg_senderId = ''u2''\<rparr>]) =
     [''https://cdn.example.com/cat.PNG?size=2''] \<and>
   url_matches ''docs (https://www.example.com/docs), https://cdn.example.com/cat.PNG?size=2 http://[zz'' =
     [''https://www.example.com/docs'', ''https://cdn.example.com/cat.PNG?size=2'', ''http://[zz'']"
  by code_simp

lemma extract_url_invalid:
  "hostname_of url = None \<Longrightarrow> extract_url hostname_of msg acc url = acc"
  by (simp add: extract_url_def)

lemma extract_url_media:
  "hostname_of url = Some h \<Longrightarrow> image_pattern url \<Longrightarrow>
   map link_url (fst (extract_url hostname_of msg acc url)) = map link_url (fst acc) \<and>
   map media_url (snd (extract_url hostname_of msg acc url)) = map media_url (snd acc) @ [url]"
  by (simp add: extract_url_def)

lemma extract_url_link:
  "hostname_of url = Some h \<Longrightarrow> \<not> image_pattern url \<Longrightarrow>
   map link_url (fst (extract_url hostname_of msg acc url)) = map link_url (fst acc) @ [url] \<and>
   map link_domain (fst (extract_url hostname_of msg acc url)) =
     map link_domain (fst acc) @ [replace_www h] \<and>
   map media_url (snd (extract_url hostname_of msg acc url)) = map media_url (snd acc)"
  by (simp add: extract_url_def)

lemma replace_www_leading: "replace_www (''www.'' @ h) = h"
  by simp

lemma replace_www_inner:
  "take 4 (c # cs) \<noteq> ''www.'' \<Longrightarrow> replace_www (c # cs) = c # replace_www cs"
  by auto

text \<open>
  Claim C10. Each matched URL goes to exactly one of the two lists, or to none when
  \<open>new URL\<close> throws (the three lemmas above). The domain of a link, however, is the
  hostname without the first \<open>www.\<close> that occurs in it, wherever it stands, while the
  claim removes a leading \<open>www.\<close> only. For the message
  \<open>see https://mywww.example.com/page\<close> the hostname is \<open>mywww.example.com\<close>, which has no
  leading \<open>www.\<close>, and the extracted domain is \<open>myexample.com\<close>.
\<close>

theorem C10_inner_www_removed:
  "links hostname_examples
     [\<lparr>msg_content = ''see https://mywww.example.com/page'', msg_timestamp = 5,
       msg_senderId = ''u1''\<rparr>] =
   [\<lparr>link_url = ''https://mywww.example.com/page'', link_domain = ''myexample.com'',
     link_timestamp = 5, link_senderId = ''u1''\<rparr>] \<and>
   media hostname_examples
     [\<lparr>msg_content = ''see https://mywww.example.com/page'', msg_timestamp = 5,
       msg_senderId = ''u1''\<rparr>] = []"
  by (simp add: links_def media_def extraction_defs)

section \<open>Properties of the Agent Runtime as specified\<close>

subsection \<open>The bound on rounds and inference calls\<close>

declare tool_loop.simps [simp del]

lemma inferring_calls: "snd (inferring infer n ctx) \<le> n + 2 \<and> n < snd (inferring infer n ctx)"
  by (simp add: inferring_def split: option.splits)

lemma inferring_no_failure:
  "\<forall>n c. infer n c \<noteq> None \<Longrightarrow> \<exists>raw. inferring infer n ctx = (Some raw, n + 1)"
  by (auto simp add: inferring_def split: option.splits)

lemma tool_loop_rounds:
  "round \<le> max_rounds \<Longrightarrow>
   (\<forall>r\<in>set (rounds (tool_loop infer parse exec max_rounds round n lv ctx)).
      round \<le> r \<and> r \<le> max_rounds) \<and>
   length (rounds (tool_loop infer parse exec max_rounds round n lv ctx))
     \<le> max_rounds + 1 - round"
proof (induction infer parse exec max_rounds round n lv ctx rule: tool_loop.induct)
  case (1 infer parse exec max_rounds round n last_visible ctx)
  obtain res n' where inf: "inferring infer n ctx = (res, n')"
    by (cases "inferring infer n ctx")
  show ?case
  proof (cases res)
    case None
    with inf "1.prems" show ?thesis
      by (simp add: tool_loop.simps [of infer parse exec max_rounds round n last_visible ctx])
  next
    case (Some raw)
    show ?thesis
    proof (cases "snd (parse raw) \<noteq> [] \<and> round < max_rounds")
      case True
      define lv where "lv = (if fst (parse raw) \<noteq> [] then fst (parse raw) else last_visible)"
      define rec where "rec = tool_loop infer parse exec max_rounds (round + 1) n' lv
                    (exec ctx (snd (parse raw)))"
      from True have le: "round + 1 \<le> max_rounds" by simp
      have ih: "(\<forall>r\<in>set (rounds rec). round + 1 \<le> r \<and> r \<le> max_rounds) \<and>
          length (rounds rec) \<le> max_rounds + 1 - (round + 1)"
        using "1.IH" [OF inf [symmetric] Some refl refl refl _ _ le] True
        by (simp add: rec_def lv_def)
      have unfold: "tool_loop infer parse exec max_rounds round n last_visible ctx =
          rec\<lparr>rounds := round # rounds rec, visibles := fst (parse raw) # visibles rec\<rparr>"
        using inf Some True
        by (simp add: tool_loop.simps [of infer parse exec max_rounds round n last_visible ctx]
              Let_def rec_def lv_def)
      have "round \<le> r \<and> r \<le> max_rounds" if "r \<in> set (rounds rec)" for r
      proof -
        from ih that have "round + 1 \<le> r \<and> r \<le> max_rounds" by blast
        then show ?thesis by simp
      qed
      moreover from ih le have "Suc (length (rounds rec)) \<le> max_rounds + 1 - round"
        by arith
      ultimately show ?thesis
        unfolding unfold by simp
    next
      case False
      with inf Some "1.prems" show ?thesis
        by (auto simp add: tool_loop.simps [of infer parse exec max_rounds round n last_visible ctx]
              Let_def)
    qed
  qed
qed

lemma tool_loop_calls:
  "\<forall>n c. infer n c \<noteq> None \<Longrightarrow>
   inference_calls (tool_loop infer parse exec max_rounds round n lv ctx) =
     n + length (rounds (tool_loop infer parse exec max_rounds round n lv ctx))"
proof (induction infer parse exec max_rounds round n lv ctx rule: tool_loop.induct)
  case (1 infer parse exec max_rounds round n last_visible ctx)
  from inferring_no_failure [OF "1.prems"]
  obtain raw where inf: "inferring infer n ctx = (Some raw, n + 1)"
    by blast
  show ?case
  proof (cases "snd (parse raw) \<noteq> [] \<and> round < max_rounds")
    case True
    define lv where "lv = (if fst (parse raw) \<noteq> [] then fst (parse raw) else last_visible)"
    define rec where "rec = tool_loop infer parse exec max_rounds (round + 1) (n + 1) lv
                    (exec ctx (snd (parse raw)))"
    have ih: "inference_calls rec = n + 1 + length (rounds rec)"
      using "1.IH" [OF inf [symmetric] refl refl refl refl _ _ "1.prems"] True
      by (simp add: rec_def lv_def)
    have unfold: "tool_loop infer parse exec max_rounds round n last_visible ctx =
        rec\<lparr>rounds := round # rounds rec, visibles := fst (parse raw) # visibles rec\<rparr>"
      using inf True
      by (simp add: tool_loop.simps [of infer parse exec max_rounds round n last_visible ctx]
            Let_def rec_def lv_def)
    from ih show ?thesis
      unfolding unfold by simp
  next
    case False
    with inf show ?thesis
      by (auto simp add: tool_loop.simps [of infer parse exec max_rounds round n last_visible ctx]
            Let_def)
  qed
qed

lemma last_visible_text_Cons:
  "last_visible_text seen (v # vs) = last_visible_text (if v \<noteq> [] then v else seen) vs"
  by (simp add: last_visible_text_def)

lemma tool_loop_stub:
  "\<forall>n c. \<exists>raw. infer n c = Some raw \<and> snd (parse raw) \<noteq> [] \<Longrightarrow>
   round \<le> max_rounds \<Longrightarrow>
   length (rounds (tool_loop infer parse exec max_rounds round n lv ctx)) =
     max_rounds + 1 - round \<and>
   reply (tool_loop infer parse exec max_rounds round n lv ctx) =
     Some (if last_visible_text lv
                (visibles (tool_loop infer parse exec max_rounds round n lv ctx)) \<noteq> []
           then last_visible_text lv
                  (visibles (tool_loop infer parse exec max_rounds round n lv ctx))
           else fallback_reply)"
proof (induction infer parse exec max_rounds round n lv ctx rule: tool_loop.induct)
  case (1 infer parse exec max_rounds round n last_visible ctx)
  from "1.prems"(1) obtain raw where raw: "infer n ctx = Some raw" "snd (parse raw) \<noteq> []"
    by blast
  then have inf: "inferring infer n ctx = (Some raw, n + 1)"
    by (simp add: inferring_def)
  define lv where "lv = (if fst (parse raw) \<noteq> [] then fst (parse raw) else last_visible)"
  show ?case
  proof (cases "round < max_rounds")
    case True
    define rec where "rec = tool_loop infer parse exec max_rounds (round + 1) (n + 1) lv
                    (exec ctx (snd (parse raw)))"
    from True have le: "round + 1 \<le> max_rounds" by simp
    have ih: "length (rounds rec) = max_rounds + 1 - (round + 1) \<and>
        reply rec = Some (if last_visible_text lv (visibles rec) \<noteq> []
                          then last_visible_text lv (visibles rec) else fallback_reply)"
      using "1.IH" [OF inf [symmetric] refl refl refl refl _ _ "1.prems"(1) le] True raw(2)
      by (simp add: rec_def lv_def)
    have unfold: "tool_loop infer parse exec max_rounds round n last_visible ctx =
        rec\<lparr>rounds := round # rounds rec, visibles := fst (parse raw) # visibles rec\<rparr>"
      using inf True raw(2)
      by (simp add: tool_loop.simps [of infer parse exec max_rounds round n last_visible ctx]
            Let_def rec_def lv_def)
    have "Suc (length (rounds rec)) = max_rounds + 1 - round"
      using ih le by arith
    with ih show ?thesis
      unfolding unfold by (simp add: last_visible_text_Cons lv_def)
  next
    case False
    have unfold: "tool_loop infer parse exec max_rounds round n last_visible ctx =
        \<lparr>reply = Some (if lv \<noteq> [] then lv else fallback_reply), rounds = [round],
         visibles = [fst (parse raw)], inference_calls = n + 1\<rparr>"
      using inf False raw(2)
      by (simp add: tool_loop.simps [of infer parse exec max_rounds round n last_visible ctx]
            Let_def lv_def)
    from False "1.prems"(2) have "max_rounds + 1 - round = 1" by simp
    then show ?thesis
      unfolding unfold by (simp add: last_visible_text_def lv_def)
  qed
qed

text \<open>
  Claim C5, on the runtime as the specification describes it. For every endpoint, codec,
  executor, maximum and context, the tool loop returns (the function is total), the round
  counter stays at or below the configured maximum at every entry of \<open>Inferring\<close>, and
  there are at most maximum + 1 such entries. When the endpoint never fails, it is
  called once per entry, so at most maximum + 1 times. Under a stub that always answers
  and always requests another tool call, the endpoint is called exactly maximum + 1
  times and the trigger ends with a reply: the last visible text of its rounds, or the
  fallback when there was none.
\<close>

theorem C5_tool_loop_bounded:
  "(\<forall>r\<in>set (rounds (run_trigger infer parse exec max_rounds ctx)). r \<le> max_rounds) \<and>
   length (rounds (run_trigger infer parse exec max_rounds ctx)) \<le> max_rounds + 1 \<and>
   ((\<forall>n c. infer n c \<noteq> None) \<longrightarrow>
      inference_calls (run_trigger infer parse exec max_rounds ctx) \<le> max_rounds + 1) \<and>
   ((\<forall>n c. \<exists>raw. infer n c = Some raw \<and> snd (parse raw) \<noteq> []) \<longrightarrow>
      inference_calls (run_trigger infer parse exec max_rounds ctx) = max_rounds + 1 \<and>
      reply (run_trigger infer parse exec max_rounds ctx) =
        Some (last_visible_or_fallback
                (visibles (run_trigger infer parse exec max_rounds ctx))))"
proof -
  let ?out = "tool_loop infer parse exec max_rounds 0 0 [] ctx"
  have r: "(\<forall>r\<in>set (rounds ?out). 0 \<le> r \<and> r \<le> max_rounds) \<and>
      length (rounds ?out) \<le> max_rounds + 1 - 0"
    by (rule tool_loop_rounds) simp
  have c: "inference_calls ?out \<le> max_rounds + 1" if "\<forall>n c. infer n c \<noteq> None"
    using tool_loop_calls [OF that, of parse exec max_rounds 0 0 "[]" ctx] r by simp
  have s: "inference_calls ?out = max_rounds + 1 \<and>
      reply ?out = Some (last_visible_or_fallback (visibles ?out))"
    if stub: "\<forall>n c. \<exists>raw. infer n c = Some raw \<and> snd (parse raw) \<noteq> []"
  proof -
    from stub have nf: "\<forall>n c. infer n c \<noteq> None" by fastforce
    from tool_loop_stub [OF stub, of 0 max_rounds exec 0 "[]" ctx]
      tool_loop_calls [OF nf, of parse exec max_rounds 0 0 "[]" ctx]
    show ?thesis by (simp add: last_visible_or_fallback_def)
  qed
  from r c s show ?thesis
    unfolding run_trigger_def by simp
qed

theorem C5_witness:
  "rounds (run_trigger (\<lambda>n (c :: string list). Some ''[WEB_SEARCH:again]'')
             (\<lambda>raw. (''Searching'', [raw])) (\<lambda>c calls. c @ calls) 2 []) = [0, 1, 2] \<and>
   inference_calls (run_trigger (\<lambda>n (c :: string list). Some ''[WEB_SEARCH:again]'')
             (\<lambda>raw. (''Searching'', [raw])) (\<lambda>c calls. c @ calls) 2 []) = 3 \<and>
   reply (run_trigger (\<lambda>n (c :: string list). Some ''[WEB_SEARCH:again]'')
             (\<lambda>raw. (''Searching'', [raw])) (\<lambda>c calls. c @ calls) 2 []) = Some ''Searching''"
proof -
  let ?infer = "\<lambda>(n :: nat) (c :: string list). Some ''[WEB_SEARCH:again]''"
  let ?parse = "\<lambda>raw :: string. (''Searching'', [raw])"
  let ?exec = "\<lambda>(c :: string list) calls. c @ calls"
  let ?out = "run_trigger ?infer ?parse ?exec 2 []"
  have stub: "\<forall>n c. \<exists>raw. ?infer n c = Some raw \<and> snd (?parse raw) \<noteq> []"
    by simp
  have v: "visibles ?out = [''Searching'', ''Searching'', ''Searching'']"
    and r: "rounds ?out = [0, 1, 2]"
    by (simp_all add: run_trigger_def tool_loop.simps inferring_def Let_def)
  from C5_tool_loop_bounded [of ?infer ?parse ?exec 2 "[]"] stub
  have "inference_calls ?out = 2 + 1 \<and> reply ?out = Some (last_visible_or_fallback (visibles ?out))"
    by blast
  with v r show ?thesis
    by (simp add: last_visible_or_fallback_def last_visible_text_def)
qed

subsection \<open>The cooldown\<close>

lemma proactive_times_append:
  "proactive_times (xs @ ys) = proactive_times xs @ proactive_times ys"
  by (simp add: proactive_times_def)

lemma trigger_cycle_proactive:
  "(proactive_times (snd (trigger_cycle cfg respond st ev)) = [] \<and>
    last_proactive (fst (trigger_cycle cfg respond st ev)) = last_proactive st) \<or>
   (proactive_times (snd (trigger_cycle cfg respond st ev)) = [pe_now ev] \<and>
    last_proactive (fst (trigger_cycle cfg respond st ev)) = Some (pe_now ev) \<and>
    cooldown_elapsed cfg st (pe_now ev))"
proof (cases "evaluate_trigger cfg st ev")
  case None
  then show ?thesis
    by (simp add: trigger_cycle_def proactive_times_def)
next
  case (Some k)
  show ?thesis
  proof (cases "respond k (pe_message ev)")
    case None
    with Some show ?thesis
      by (simp add: trigger_cycle_def proactive_times_def)
  next
    case (Some answer)
    note answer = this
    show ?thesis
    proof (cases "k = Proactive")
      case True
      with \<open>evaluate_trigger cfg st ev = Some k\<close> have "cooldown_elapsed cfg st (pe_now ev)"
        by (simp add: evaluate_trigger_def split: if_splits)
      with True answer \<open>evaluate_trigger cfg st ev = Some k\<close> show ?thesis
        by (simp add: trigger_cycle_def proactive_times_def)
    next
      case False
      with answer \<open>evaluate_trigger cfg st ev = Some k\<close> show ?thesis
        by (simp add: trigger_cycle_def proactive_times_def)
    qed
  qed
qed

lemma run_runtime_spacing:
  "sorted_wrt (\<lambda>a b. a + proactiveCooldown cfg \<le> b)
     (proactive_times (run_runtime cfg respond st evs)) \<and>
   (\<forall>t\<in>set (proactive_times (run_runtime cfg respond st evs)).
      cooldown_elapsed cfg st t)"
proof (induction evs arbitrary: st)
  case Nil
  show ?case by (simp add: proactive_times_def)
next
  case (Cons ev evs)
  define st' where "st' = fst (trigger_cycle cfg respond st ev)"
  define rest where "rest = proactive_times (run_runtime cfg respond st' evs)"
  have run: "proactive_times (run_runtime cfg respond st (ev # evs)) =
      proactive_times (snd (trigger_cycle cfg respond st ev)) @ rest"
    by (simp add: Let_def proactive_times_append rest_def st'_def)
  have ih: "sorted_wrt (\<lambda>a b. a + proactiveCooldown cfg \<le> b) rest \<and>
      (\<forall>t\<in>set rest. cooldown_elapsed cfg st' t)"
    unfolding rest_def by (rule Cons.IH)
  from trigger_cycle_proactive [of cfg respond st ev]
  show ?case
  proof (elim disjE conjE)
    assume "proactive_times (snd (trigger_cycle cfg respond st ev)) = []"
      and "last_proactive (fst (trigger_cycle cfg respond st ev)) = last_proactive st"
    with ih show ?thesis
      unfolding run by (simp add: cooldown_elapsed_def st'_def)
  next
    assume p: "proactive_times (snd (trigger_cycle cfg respond st ev)) = [pe_now ev]"
      and l: "last_proactive (fst (trigger_cycle cfg respond st ev)) = Some (pe_now ev)"
      and c: "cooldown_elapsed cfg st (pe_now ev)"
    from ih l have later: "\<forall>t\<in>set rest. pe_now ev + proactiveCooldown cfg \<le> t"
      by (simp add: cooldown_elapsed_def st'_def)
    have "cooldown_elapsed cfg st t" if "t \<in> set rest" for t
    proof -
      from later that have "pe_now ev \<le> t" by fastforce
      with c show ?thesis
        by (auto simp add: cooldown_elapsed_def split: option.splits)
    qed
    with ih later c show ?thesis
      unfolding run p by simp
  qed
qed

lemma run_runtime_addressed:
  "ev \<in> set evs \<Longrightarrow> agent_id cfg \<in> set (fm_mentions (pe_message ev)) \<Longrightarrow>
   respond Addressed (pe_message ev) = Some answer \<Longrightarrow>
   \<lparr>pr_time = pe_now ev, pr_trigger = Addressed, pr_reply_to = fm_id (pe_message ev),
    pr_text = answer\<rparr> \<in> set (run_runtime cfg respond st evs)"
proof (induction evs arbitrary: st)
  case Nil
  then show ?case by simp
next
  case (Cons e evs)
  show ?case
  proof (cases "ev = e")
    case True
    with Cons.prems(2,3) have "snd (trigger_cycle cfg respond st e) =
        [\<lparr>pr_time = pe_now ev, pr_trigger = Addressed, pr_reply_to = fm_id (pe_message ev),
          pr_text = answer\<rparr>]"
      by (simp add: trigger_cycle_def evaluate_trigger_def)
    then show ?thesis by (simp add: Let_def)
  next
    case False
    with Cons.prems(1) have "ev \<in> set evs" by simp
    from Cons.IH [OF this Cons.prems(2,3)] show ?thesis
      by (simp add: Let_def)
  qed
qed

text \<open>
  Claim C6, on the runtime as the specification describes it. For every agent, every
  starting state and every sequence of evaluations: any two proactive replies of the run
  are at least the cooldown apart; when a proactive reply was posted at time \<open>T\<close> (the
  state records it), no proactive reply of the run is posted before \<open>T\<close> plus the
  cooldown; and a message that mentions the agent gets its addressed reply whatever the
  cooldown, whenever its reply cycle produces a text.
\<close>

theorem C6_cooldown:
  "sorted_wrt (\<lambda>a b. a + proactiveCooldown cfg \<le> b)
     (proactive_times (run_runtime cfg respond st evs)) \<and>
   (last_proactive st = Some T \<longrightarrow>
      (\<forall>t\<in>set (proactive_times (run_runtime cfg respond st evs)).
         T + proactiveCooldown cfg \<le> t)) \<and>
   (ev \<in> set evs \<and> agent_id cfg \<in> set (fm_mentions (pe_message ev)) \<and>
    respond Addressed (pe_message ev) = Some answer \<longrightarrow>
      \<lparr>pr_time = pe_now ev, pr_trigger = Addressed, pr_reply_to = fm_id (pe_message ev),
       pr_text = answer\<rparr> \<in> set (run_runtime cfg respond st evs))"
proof (intro conjI impI)
  show "sorted_wrt (\<lambda>a b. a + proactiveCooldown cfg \<le> b)
     (proactive_times (run_runtime cfg respond st evs))"
    using run_runtime_spacing [of cfg respond st evs] by simp
next
  assume "last_proactive st = Some T"
  with run_runtime_spacing [of cfg respond st evs]
  show "\<forall>t\<in>set (proactive_times (run_runtime cfg respond st evs)).
         T + proactiveCooldown cfg \<le> t"
    by (simp add: cooldown_elapsed_def)
next
  assume "ev \<in> set evs \<and> agent_id cfg \<in> set (fm_mentions (pe_message ev)) \<and>
    respond Addressed (pe_message ev) = Some answer"
  then show "\<lparr>pr_time = pe_now ev, pr_trigger = Addressed,
       pr_reply_to = fm_id (pe_message ev), pr_text = answer\<rparr>
      \<in> set (run_runtime cfg respond st evs)"
    by (simp add: run_runtime_addressed)
qed

theorem C6_witness:
  "proactive_times
     (run_runtime \<lparr>agent_id = ''a1'', respondsProactively = True, proactiveCooldown = 60\<rparr>
        (\<lambda>k m. Some ''ok'') \<lparr>last_proactive = Some 100\<rparr>
        [\<lparr>pe_now = 101, pe_summary_due = False,
          pe_message = \<lparr>fm_id = ''m2'', fm_author = ''u'', fm_body = ''@a1 hi'',
                        fm_mentions = [''a1'']\<rparr>\<rparr>,
         \<lparr>pe_now = 130, pe_summary_due = False,
          pe_message = \<lparr>fm_id = ''m3'', fm_author = ''u'', fm_body = ''hi'',
                        fm_mentions = []\<rparr>\<rparr>,
         \<lparr>pe_now = 160, pe_summary_due = False,
          pe_message = \<lparr>fm_id = ''m4'', fm_author = ''u'', fm_body = ''hi'',
                        fm_mentions = []\<rparr>\<rparr>]) = [160] \<and>
   \<lparr>pr_time = 101, pr_trigger = Addressed, pr_reply_to = ''m2'', pr_text = ''ok''\<rparr>
     \<in> set (run_runtime \<lparr>agent_id = ''a1'', respondsProactively = True, proactiveCooldown = 60\<rparr>
        (\<lambda>k m. Some ''ok'') \<lparr>last_proactive = Some 100\<rparr>
        [\<lparr>pe_now = 101, pe_summary_due = False,
          pe_message = \<lparr>fm_id = ''m2'', fm_author = ''u'', fm_body = ''@a1 hi'',
                        fm_mentions = [''a1'']\<rparr>\<rparr>,
         \<lparr>pe_now = 130, pe_summary_due = False,
          pe_message = \<lparr>fm_id = ''m3'', fm_author = ''u'', fm_body = ''hi'',
                        fm_mentions = []\<rparr>\<rparr>,
         \<lparr>pe_now = 160, pe_summary_due = False,
          pe_message = \<lparr>fm_id = ''m4'', fm_author = ''u'', fm_body = ''hi'',
                        fm_mentions = []\<rparr>\<rparr>])"
proof -
  let ?cfg = "\<lparr>agent_id = ''a1'', respondsProactively = True, proactiveCooldown = 60\<rparr>"
  let ?respond = "\<lambda>(k :: trigger) (m :: feed_message). Some ''ok''"
  let ?st = "\<lparr>last_proactive = Some (100 :: nat)\<rparr>"
  let ?ev = "\<lparr>pe_now = 101, pe_summary_due = False,
          pe_message = \<lparr>fm_id = ''m2'', fm_author = ''u'', fm_body = ''@a1 hi'',
                        fm_mentions = [''a1'']\<rparr>\<rparr>"
  let ?evs = "[?ev,
         \<lparr>pe_now = 130, pe_summary_due = False,
          pe_message = \<lparr>fm_id = ''m3'', fm_author = ''u'', fm_body = ''hi'',
                        fm_mentions = []\<rparr>\<rparr>,
         \<lparr>pe_now = 160, pe_summary_due = False,
          pe_message = \<lparr>fm_id = ''m4'', fm_author = ''u'', fm_body = ''hi'',
                        fm_mentions = []\<rparr>\<rparr>]"
  have p: "proactive_times (run_runtime ?cfg ?respond ?st ?evs) = [160]"
    by (simp add: proactive_times_def trigger_cycle_def evaluate_trigger_def
          cooldown_elapsed_def Let_def)
  have h: "?ev \<in> set ?evs \<and> agent_id ?cfg \<in> set (fm_mentions (pe_message ?ev)) \<and>
      ?respond Addressed (pe_message ?ev) = Some ''ok''"
    by simp
  from C6_cooldown [of ?cfg ?respond ?st ?evs 100 ?ev "''ok''"] h
  have "\<lparr>pr_time = pe_now ?ev, pr_trigger = Addressed, pr_reply_to = fm_id (pe_message ?ev),
      pr_text = ''ok''\<rparr> \<in> set (run_runtime ?cfg ?respond ?st ?evs)"
    by blast
  with p show ?thesis by simp
qed

end
